theory Spec2Isabelle
  imports Main "HOL-Library.Word" "HOL-Library.Sublist" "HOL-Library.Log_Nat"
begin

unbundle bit_operations_syntax

section \<open>Go library functions used by jotti.go\<close>

type_synonym byte = "8 word"

text \<open>
  Go's \<open>error\<close> values. \<open>EOF\<close> is the sentinel \<open>io.EOF\<close> (compared with \<open>==\<close> in
  \<open>progressReader.Read\<close>); every other error carries its message.
\<close>

datatype error = EOF | Err string

fun Error_text :: "error \<Rightarrow> string" where
  "Error_text EOF = ''EOF''"
| "Error_text (Err msg) = msg"

definition newline :: string where
  "newline = [CHR 0x0A]"

definition carriage_return :: char where
  "carriage_return = CHR 0x0D"

subsection \<open>Decimal formatting (the verb \<open>%d\<close>)\<close>

definition digit_char :: "nat \<Rightarrow> char" where
  "digit_char d = char_of (48 + d)"

function dec_nat :: "nat \<Rightarrow> string" where
  "dec_nat n = (if n < 10 then [digit_char n] else dec_nat (n div 10) @ [digit_char (n mod 10)])"
  by pat_completeness auto
termination
  by (relation "measure (\<lambda>n. n)") auto

declare dec_nat.simps [simp del]

definition fmt_d :: "int \<Rightarrow> string" where
  "fmt_d i = (if i < 0 then CHR ''-'' # dec_nat (nat (- i)) else dec_nat (nat i))"

subsection \<open>\<open>strings.Contains\<close>\<close>

text \<open>\<open>strings.Contains(s, substr)\<close>: some position of \<open>s\<close> starts with \<open>substr\<close>.\<close>

fun Contains :: "string \<Rightarrow> string \<Rightarrow> bool" where
  "Contains [] substr = (substr = [])"
| "Contains (c # s) substr = (prefix substr (c # s) \<or> Contains s substr)"

subsection \<open>\<open>crypto/sha1\<close> and \<open>encoding/hex\<close>\<close>

text \<open>
  The digest that \<open>sha1.New()\<close>, fed the whole input, returns from \<open>Sum(nil)\<close>: SHA-1 as
  in FIPS 180-4, on 32-bit words.
\<close>

type_synonym word32 = "32 word"

definition be32 :: "byte list \<Rightarrow> word32" where
  "be32 bs = foldl (\<lambda>acc b. push_bit 8 acc OR ucast b) 0 bs"

definition bytes_of_word32 :: "word32 \<Rightarrow> byte list" where
  "bytes_of_word32 w = [ucast (drop_bit 24 w), ucast (drop_bit 16 w), ucast (drop_bit 8 w), ucast w]"

definition bytes_of_len64 :: "nat \<Rightarrow> byte list" where
  "bytes_of_len64 n = map (\<lambda>k. (of_nat ((n mod 2 ^ 64) div 2 ^ (8 * (7 - k))) :: byte)) [0..<8]"

definition sha1_pad :: "byte list \<Rightarrow> byte list" where
  "sha1_pad msg =
     msg @ [0x80] @ replicate ((119 - length msg mod 64) mod 64) 0
         @ bytes_of_len64 (8 * length msg)"

fun chunks :: "nat \<Rightarrow> 'a list \<Rightarrow> 'a list list" where
  "chunks 0 xs = []"
| "chunks (Suc k) [] = []"
| "chunks (Suc k) (x # xs) = take (Suc k) (x # xs) # chunks (Suc k) (drop (Suc k) (x # xs))"

fun sha1_schedule :: "nat \<Rightarrow> word32 list \<Rightarrow> word32 list" where
  "sha1_schedule 0 ws = ws"
| "sha1_schedule (Suc k) ws =
     (let t = length ws in
      sha1_schedule k
        (ws @ [word_rotl 1 (ws ! (t - 3) XOR ws ! (t - 8) XOR ws ! (t - 14) XOR ws ! (t - 16))]))"

definition sha1_f :: "nat \<Rightarrow> word32 \<Rightarrow> word32 \<Rightarrow> word32 \<Rightarrow> word32" where
  "sha1_f t b c d =
     (if t < 20 then (b AND c) OR (NOT b AND d)
      else if t < 40 then b XOR c XOR d
      else if t < 60 then (b AND c) OR (b AND d) OR (c AND d)
      else b XOR c XOR d)"

definition sha1_K :: "nat \<Rightarrow> word32" where
  "sha1_K t =
     (if t < 20 then 0x5A827999
      else if t < 40 then 0x6ED9EBA1
      else if t < 60 then 0x8F1BBCDC
      else 0xCA62C1D6)"

type_synonym sha1_state = "word32 \<times> word32 \<times> word32 \<times> word32 \<times> word32"

fun sha1_round :: "word32 list \<Rightarrow> sha1_state \<Rightarrow> nat \<Rightarrow> sha1_state" where
  "sha1_round ws (a, b, c, d, e) t =
     (word_rotl 5 a + sha1_f t b c d + e + sha1_K t + ws ! t, a, word_rotl 30 b, c, d)"

fun sha1_block :: "sha1_state \<Rightarrow> byte list \<Rightarrow> sha1_state" where
  "sha1_block (h0, h1, h2, h3, h4) blk =
     (let ws = sha1_schedule 64 (map be32 (chunks 4 blk));
          (a, b, c, d, e) = foldl (sha1_round ws) (h0, h1, h2, h3, h4) [0..<80]
      in (h0 + a, h1 + b, h2 + c, h3 + d, h4 + e))"

definition sha1_init :: sha1_state where
  "sha1_init = (0x67452301, 0xEFCDAB89, 0x98BADCFE, 0x10325476, 0xC3D2E1F0)"

fun sha1_digest :: "sha1_state \<Rightarrow> byte list" where
  "sha1_digest (h0, h1, h2, h3, h4) = concat (map bytes_of_word32 [h0, h1, h2, h3, h4])"

definition sha1_Sum :: "byte list \<Rightarrow> byte list" where
  "sha1_Sum msg = sha1_digest (foldl sha1_block sha1_init (chunks 64 (sha1_pad msg)))"

text \<open>\<open>hex.EncodeToString\<close>: two characters of \<open>0123456789abcdef\<close> for each byte.\<close>

definition hextable :: string where
  "hextable = ''0123456789abcdef''"

definition hex_EncodeToString :: "byte list \<Rightarrow> string" where
  "hex_EncodeToString src =
     concat (map (\<lambda>v. [hextable ! unat (drop_bit 4 v), hextable ! unat (v AND 0x0f)]) src)"

section \<open>The environment of the program\<close>

text \<open>
  The file system, the network and the clock are outside the program. They are a record of
  operations over a world state \<open>'w\<close>, which every call takes and returns; the theorems
  hold for every such record. What the program does to its environment is recorded as a
  list of events, in order.
\<close>

record FileInfo =
  IsDir :: bool
  Size :: int

text \<open>
  An HTTP response as \<open>checkJottiSearch\<close> and \<open>uploadFile\<close> read it: the status code, and
  what \<open>io.ReadAll(response.Body)\<close> returns.
\<close>

record Response =
  StatusCode :: int
  Body :: "error + string"

text \<open>
  One \<open>Read\<close> call issued against a request body: the caller's buffer, and the value of
  \<open>time.Now()\<close> during the call (nanoseconds since the zero \<open>time.Time\<close>).
\<close>

type_synonym read_call = "byte list \<times> int"

text \<open>
  \<^item> \<open>os_Stat\<close>, \<open>os_Open\<close> (the result is a file handle) and \<open>http_Get\<close> are the library
    calls of these names.
  \<^item> \<open>read_to_end h\<close> is the content that \<open>io.Copy(dst, file)\<close> reads from the open file
    \<open>h\<close>, or the read error that stops it.
  \<^item> \<open>multipart_body filePath h\<close> is what lines 139 to 151 of \<open>uploadFile\<close> leave in
    the buffer: the multipart encoding (its boundary is random) of one form file with the
    base name of \<open>filePath\<close> and the content read from the open file \<open>h\<close>, with the value
    of \<open>writer.FormDataContentType()\<close>; or the error of \<open>CreateFormFile\<close>, of \<open>io.Copy\<close>
    or of \<open>writer.Close\<close>.
  \<^item> \<open>http_Do url contentType contentLength\<close> is \<open>httpClient.Do\<close> on the POST request:
    the \<open>Read\<close> calls that the transport issues against the request body, then the
    transport's error or the status code of the response.
\<close>

record 'w sys =
  os_Stat :: "string \<Rightarrow> 'w \<Rightarrow> (error + FileInfo) \<times> 'w"
  os_Open :: "string \<Rightarrow> 'w \<Rightarrow> (error + nat) \<times> 'w"
  read_to_end :: "nat \<Rightarrow> 'w \<Rightarrow> (error + byte list) \<times> 'w"
  http_Get :: "string \<Rightarrow> 'w \<Rightarrow> (error + Response) \<times> 'w"
  multipart_body :: "string \<Rightarrow> nat \<Rightarrow> 'w \<Rightarrow> (error + byte list \<times> string) \<times> 'w"
  http_Do :: "string \<Rightarrow> string \<Rightarrow> int \<Rightarrow> 'w \<Rightarrow> (read_call list \<times> (error + int)) \<times> 'w"

text \<open>A call of \<open>progressReader.render\<close>, with the counters it reads, or of \<open>renderDone\<close>.\<close>

datatype render_call = Render int int | RenderDone

datatype event =
    Stat string
  | Open string
  | Close string
  | HttpGet string
  | HttpPost string
  | Log string
  | Stdout string
  | Stderr string
  | Progress render_call
  | Sleep int

text \<open>A function either returns or ends the process with \<open>os.Exit\<close>.\<close>

datatype 'a proc = Return 'a | Exit int

section \<open>Global variables\<close>

definition jottiUploadURL :: string where
  "jottiUploadURL = ''https://virusscan.jotti.org/en-US/submit-file''"

text \<open>\<open>fmt.Sprintf(jottiChecksumURL, checksum)\<close>: the template ends with its only verb, \<open>%s\<close>.\<close>

definition jottiChecksumURL :: "string \<Rightarrow> string" where
  "jottiChecksumURL checksum = ''https://virusscan.jotti.org/en-US/search/hash/'' @ checksum"

definition maxUploadSize :: int where
  "maxUploadSize = 250 * 1024 * 1024"

definition StatusOK :: int where
  "StatusOK = 200"

definition Millisecond :: int where
  "Millisecond = 1000000"

section \<open>calculateSHA1Checksum\<close>

definition calculateSHA1Checksum ::
  "'w sys \<Rightarrow> string \<Rightarrow> 'w \<Rightarrow> ((string \<times> error option) \<times> event list) \<times> 'w" where
  "calculateSHA1Checksum sys filePath w =
     (case os_Open sys filePath w of
        (Inl err, w1) \<Rightarrow> ((([], Some err), [Open filePath]), w1)
      | (Inr file, w1) \<Rightarrow>
          (case read_to_end sys file w1 of
             (Inl err, w2) \<Rightarrow> ((([], Some err), [Open filePath, Close filePath]), w2)
           | (Inr content, w2) \<Rightarrow>
               (((hex_EncodeToString (sha1_Sum content), None),
                 [Open filePath, Close filePath]), w2)))"

section \<open>progressReader\<close>

text \<open>
  An \<open>io.Reader\<close>: \<open>Read\<close> takes the reader's state and the caller's buffer, and returns
  the count \<open>n\<close>, the buffer as the call leaves it and the error, with the new state.
\<close>

type_synonym read_result = "int \<times> byte list \<times> error option"

type_synonym 's reader = "'s \<Rightarrow> byte list \<Rightarrow> read_result \<times> 's"

record 's progressReader =
  pr_r :: 's
  pr_total :: int
  pr_read :: int
  pr_lastTick :: int

definition progressBarWidth :: int where
  "progressBarWidth = 20"

text \<open>\<open>int64\<close> addition wraps around.\<close>

definition wrap64 :: "int \<Rightarrow> int" where
  "wrap64 x = (x + 2 ^ 63) mod 2 ^ 64 - 2 ^ 63"

text \<open>\<open>Time.Sub\<close>: the difference as a \<open>Duration\<close>, saturated at its least and greatest value.\<close>

definition Sub :: "int \<Rightarrow> int \<Rightarrow> int" where
  "Sub t u =
     (let d = t - u in
      if d < - (2 ^ 63) then - (2 ^ 63) else if 2 ^ 63 - 1 < d then 2 ^ 63 - 1 else d)"

text \<open>
  \<open>progressReader.Read\<close>, over the \<open>Read\<close> of the wrapped reader: the result of the call,
  the renders it made, and the reader afterwards.
\<close>

definition Read ::
  "'s reader \<Rightarrow> 's progressReader \<Rightarrow> byte list \<Rightarrow> int \<Rightarrow>
     (read_result \<times> render_call list) \<times> 's progressReader" where
  "Read rd p b clock =
     (case rd (pr_r p) b of
        ((n, b', err), r') \<Rightarrow>
          (let p0 = p\<lparr>pr_r := r'\<rparr>;
               (out1, p2) =
                 (if 0 < n then
                    (let p1 = p0\<lparr>pr_read := wrap64 (pr_read p0 + n)\<rparr>;
                         now = clock
                     in if 150 * Millisecond \<le> Sub now (pr_lastTick p1) \<or> pr_read p1 = pr_total p1
                        then ([Render (pr_read p1) (pr_total p1)], p1\<lparr>pr_lastTick := now\<rparr>)
                        else ([], p1))
                  else ([], p0));
               out2 = (if err = Some EOF then [RenderDone] else [])
           in (((n, b', err), out1 @ out2), p2)))"

text \<open>A sequence of \<open>Read\<close> calls: the results in order, and all the renders in order.\<close>

fun Read_calls ::
  "'s reader \<Rightarrow> 's progressReader \<Rightarrow> read_call list \<Rightarrow>
     (read_result list \<times> render_call list) \<times> 's progressReader" where
  "Read_calls rd p [] = (([], []), p)"
| "Read_calls rd p ((b, clock) # calls) =
     (case Read rd p b clock of
        ((res, out), p1) \<Rightarrow>
          (case Read_calls rd p1 calls of
             ((ress, outs), p2) \<Rightarrow> ((res # ress, out @ outs), p2)))"

subsection \<open>\<open>bytes.Reader\<close>, the reader that \<open>uploadFile\<close> wraps\<close>

record bytes_Reader =
  br_s :: "byte list"
  br_i :: nat

definition bytes_NewReader :: "byte list \<Rightarrow> bytes_Reader" where
  "bytes_NewReader b = \<lparr>br_s = b, br_i = 0\<rparr>"

text \<open>
  \<open>bytes.Reader.Read\<close>: end of data once the index has reached the length; otherwise
  \<open>copy(b, r.s[r.i:])\<close>, which fills as much of \<open>b\<close> as there is data for.
\<close>

definition bytes_Read :: "bytes_Reader reader" where
  "bytes_Read rd b =
     (if length (br_s rd) \<le> br_i rd then ((0, b, Some EOF), rd)
      else (let n = min (length b) (length (br_s rd) - br_i rd)
            in ((int n, take n (drop (br_i rd) (br_s rd)) @ drop n b, None),
                rd\<lparr>br_i := br_i rd + n\<rparr>)))"

text \<open>The reader that \<open>uploadFile\<close> builds in lines 153 to 157; \<open>lastTick\<close> is the zero time.\<close>

definition new_progressReader :: "byte list \<Rightarrow> bytes_Reader progressReader" where
  "new_progressReader raw =
     \<lparr>pr_r = bytes_NewReader raw, pr_total = int (length raw), pr_read = 0, pr_lastTick = 0\<rparr>"

section \<open>uploadFile\<close>

text \<open>
  \<open>http.NewRequest\<close> fails on a method or URL that does not parse; with the constant
  \<open>POST\<close> and \<open>jottiUploadURL\<close> it returns the request.
\<close>

definition uploadFile ::
  "'w sys \<Rightarrow> string \<Rightarrow> 'w \<Rightarrow> ((string \<times> error option) \<times> event list) \<times> 'w" where
  "uploadFile sys filePath w =
     (case os_Open sys filePath w of
        (Inl err, w1) \<Rightarrow> ((([], Some err), [Open filePath]), w1)
      | (Inr file, w1) \<Rightarrow>
          (case multipart_body sys filePath file w1 of
             (Inl err, w2) \<Rightarrow> ((([], Some err), [Open filePath, Close filePath]), w2)
           | (Inr (raw, contentType), w2) \<Rightarrow>
               (case http_Do sys jottiUploadURL contentType (int (length raw)) w2 of
                  ((calls, result), w3) \<Rightarrow>
                    (let pr = new_progressReader raw;
                         renders = snd (fst (Read_calls bytes_Read pr calls));
                         evs = [Open filePath, HttpPost jottiUploadURL]
                                 @ map Progress renders @ [Close filePath]
                     in case result of
                          Inl err \<Rightarrow> ((([], Some err), evs), w3)
                        | Inr status \<Rightarrow>
                            if status \<noteq> StatusOK then
                              ((([], Some (Err (''received non-200 response status: ''
                                                 @ fmt_d status))), evs), w3)
                            else ((([], None), evs), w3)))))"

section \<open>checkJottiSearch\<close>

definition checkJottiSearch ::
  "'w sys \<Rightarrow> string \<Rightarrow> 'w \<Rightarrow> ((bool \<times> string \<times> error option) proc \<times> event list) \<times> 'w" where
  "checkJottiSearch sys checksum w =
     (let searchURL = jottiChecksumURL checksum in
      case http_Get sys searchURL w of
        (Inl err, w1) \<Rightarrow> ((Return (False, [], Some err), [HttpGet searchURL]), w1)
      | (Inr response, w1) \<Rightarrow>
          if StatusCode response = StatusOK then
            (case Body response of
               Inl err \<Rightarrow> ((Return (False, [], Some err), [HttpGet searchURL]), w1)
             | Inr body \<Rightarrow>
                 if Contains body ''Too many requests'' then
                   ((Exit 2,
                     [HttpGet searchURL,
                      Stderr (''Rate limited by Jotti. Please try again in a few minutes.'' @ newline)]),
                    w1)
                 else if Contains body ''Hash not found'' then
                   ((Return (False, searchURL, None), [HttpGet searchURL]), w1)
                 else ((Return (True, searchURL, None), [HttpGet searchURL]), w1))
          else
            ((Return (False, [],
                Some (Err (''unexpected response status: '' @ fmt_d (StatusCode response)))),
              [HttpGet searchURL]), w1))"

section \<open>main: the loop over the files\<close>

text \<open>
  The terminal outcome of one file, as the specification's state machine names the ways
  through the loop body; \<open>Exited\<close> is the process ending inside the body.
\<close>

datatype outcome = Skipped | Errored | AlreadyFound | Uploaded | Exited int

text \<open>The body of the loop of \<open>main\<close> (lines 236 to 282) for one \<open>filePath\<close>.\<close>

definition process_file :: "'w sys \<Rightarrow> string \<Rightarrow> 'w \<Rightarrow> (outcome \<times> event list) \<times> 'w" where
  "process_file sys filePath w =
     (case os_Stat sys filePath w of
        (Inl err, w1) \<Rightarrow>
          ((Errored,
            [Stat filePath,
             Log (''Error stat '' @ filePath @ '': '' @ Error_text err @ newline)]), w1)
      | (Inr fi, w1) \<Rightarrow>
          if IsDir fi then
            ((Skipped, [Stat filePath, Log (''Skipping directory: '' @ filePath @ newline)]), w1)
          else if maxUploadSize < Size fi then
            ((Skipped,
              [Stat filePath,
               Log (''Skipping '' @ filePath @ '': file size '' @ fmt_d (Size fi)
                      @ '' exceeds 250MB limit'' @ newline)]), w1)
          else
            (case calculateSHA1Checksum sys filePath w1 of
               (((checksum, Some err), ev1), w2) \<Rightarrow>
                 ((Errored,
                   Stat filePath # ev1
                     @ [Log (''Error calculating SHA1 checksum for '' @ filePath @ '': ''
                               @ Error_text err @ newline)]), w2)
             | (((checksum, None), ev1), w2) \<Rightarrow>
                 (let ev2 = Stat filePath # ev1
                              @ [Stdout (''SHA1 Checksum: '' @ checksum @ newline)]
                  in case checkJottiSearch sys checksum w2 of
                       ((Exit code, ev3), w3) \<Rightarrow> ((Exited code, ev2 @ ev3), w3)
                     | ((Return (found, jottiURL, Some err), ev3), w3) \<Rightarrow>
                         ((Errored,
                           ev2 @ ev3
                             @ [Log (''Error checking Jotti's malware scan: ''
                                       @ Error_text err @ newline)]), w3)
                     | ((Return (found, jottiURL, None), ev3), w3) \<Rightarrow>
                         if found then
                           ((AlreadyFound,
                             ev2 @ ev3
                               @ [Stdout (''File '' @ filePath @ '' found on Jotti:'' @ newline
                                            @ jottiURL @ newline)]), w3)
                         else
                           (let ev4 = ev2 @ ev3 @ [Stdout (''Uploading '' @ filePath @ '': '')]
                            in case uploadFile sys filePath w3 of
                                 (((u, Some err), ev5), w4) \<Rightarrow>
                                   ((Errored,
                                     ev4 @ ev5
                                       @ [Log (''Error: '' @ Error_text err @ newline)]), w4)
                               | (((u, None), ev5), w4) \<Rightarrow>
                                   ((Uploaded,
                                     ev4 @ ev5
                                       @ [Stdout (''OK'' @ newline),
                                          Stdout (jottiChecksumURL checksum @ newline),
                                          Sleep (1000 * Millisecond)]), w4)))))"

text \<open>
  The loop \<open>for _, filePath := range os.Args[1:]\<close>: the exit status of the process (0 when
  \<open>main\<close> returns) and the events of the run.
\<close>

fun main_loop :: "'w sys \<Rightarrow> string list \<Rightarrow> 'w \<Rightarrow> (int \<times> event list) \<times> 'w" where
  "main_loop sys [] w = ((0, []), w)"
| "main_loop sys (filePath # args) w =
     (case process_file sys filePath w of
        ((Exited code, ev), w1) \<Rightarrow> ((code, ev), w1)
      | ((out, ev), w1) \<Rightarrow>
          (case main_loop sys args w1 of
             ((code, evs), w2) \<Rightarrow> ((code, ev @ evs), w2)))"

section \<open>Definitions for the properties of the progress reader\<close>

text \<open>The wrapped reader on its own, called with the same buffers in the same order.\<close>

fun reader_calls :: "'s reader \<Rightarrow> 's \<Rightarrow> byte list list \<Rightarrow> read_result list \<times> 's" where
  "reader_calls rd s [] = ([], s)"
| "reader_calls rd s (b # bs) =
     (case rd s b of
        (res, s1) \<Rightarrow> (case reader_calls rd s1 bs of (ress, s2) \<Rightarrow> (res # ress, s2)))"

text \<open>A \<open>Read\<close> result whose error is \<open>io.EOF\<close>.\<close>

definition is_EOF :: "read_result \<Rightarrow> bool" where
  "is_EOF res = (snd (snd res) = Some EOF)"

text \<open>
  The invariant of the reader that \<open>uploadFile\<close> builds: the counter is the index of the
  \<open>bytes.Reader\<close>, the total is the length of its data, and that length fits an \<open>int64\<close>.
\<close>

definition progress_inv :: "bytes_Reader progressReader \<Rightarrow> bool" where
  "progress_inv p =
     (pr_read p = int (br_i (pr_r p)) \<and> pr_total p = int (length (br_s (pr_r p))) \<and>
      br_i (pr_r p) \<le> length (br_s (pr_r p)) \<and> length (br_s (pr_r p)) < 2 ^ 63)"

section \<open>Definitions for the properties of the checksum\<close>

text \<open>A string of the characters \<open>0\<close> to \<open>9\<close> and \<open>a\<close> to \<open>f\<close> only.\<close>

definition is_lower_hex :: "string \<Rightarrow> bool" where
  "is_lower_hex str = list_all (\<lambda>c. c \<in> set hextable) str"

section \<open>float64 arithmetic\<close>

text \<open>
  A finite \<open>float64\<close> is the rational number it stands for. \<open>float64_round\<close> is the
  rounding of IEEE 754 binary64 (53 significant bits, to nearest, ties to even) that
  every \<open>float64\<close> operation of \<open>render\<close> applies to its exact result. The numbers of
  \<open>render\<close> stay in the normal range, so overflow and subnormal numbers are left out.
\<close>

text \<open>The nearest integer, the even one of two that are equally near.\<close>

definition roundeven :: "rat \<Rightarrow> int" where
  "roundeven q =
     (let f = \<lfloor>q\<rfloor>; r = q - of_int f
      in if r < 1 / 2 then f else if 1 / 2 < r then f + 1 else if even f then f else f + 1)"

text \<open>The binary exponent of \<open>x > 0\<close>: the \<open>e\<close> with \<open>2^e \<le> x < 2^(e + 1)\<close>.\<close>

definition ilog2 :: "rat \<Rightarrow> int" where
  "ilog2 x =
     (case quotient_of x of
        (a, b) \<Rightarrow> (let e = bitlen a - bitlen b in if 2 powi e \<le> x then e else e - 1))"

definition float64_round :: "rat \<Rightarrow> rat" where
  "float64_round x =
     (if x = 0 then 0
      else (let u = 2 powi (ilog2 \<bar>x\<bar> - 52) in of_int (roundeven (x / u)) * u))"

text \<open>The conversion \<open>float64(i)\<close> of an integer.\<close>

definition float64_of_int :: "int \<Rightarrow> rat" where
  "float64_of_int i = float64_round (of_int i)"

text \<open>
  The conversion \<open>int(x)\<close> of a \<open>float64\<close> drops the fraction. When the result does not
  fit the 64-bit \<open>int\<close>, Go leaves the value to the implementation: \<open>None\<close>.
\<close>

definition int_of_float64 :: "rat \<Rightarrow> int option" where
  "int_of_float64 x =
     (let t = (if 0 \<le> x then \<lfloor>x\<rfloor> else \<lceil>x\<rceil>)
      in if - (2 ^ 63) \<le> t \<and> t < 2 ^ 63 then Some t else None)"

text \<open>
  The verb \<open>%6.2f\<close> on a non-negative \<open>float64\<close>: the exact value rounded to two
  decimals (to nearest, ties to even), padded with spaces on the left to six characters.
\<close>

definition fmt_6_2f :: "rat \<Rightarrow> string" where
  "fmt_6_2f x =
     (let h = nat (roundeven (x * 100));
          frac = h mod 100;
          digits = dec_nat (h div 100) @ ''.'' @ [digit_char (frac div 10), digit_char (frac mod 10)]
      in replicate (6 - length digits) (CHR '' '') @ digits)"

section \<open>progressReader.render and renderDone\<close>

text \<open>Line 107: \<open>float64(p.read) * 100 / float64(p.total)\<close>, two rounded operations.\<close>

definition percent_of :: "int \<Rightarrow> int \<Rightarrow> rat" where
  "percent_of rd tot =
     float64_round (float64_round (float64_of_int rd * 100) / float64_of_int tot)"

text \<open>
  \<open>render\<close> reads the two counters of \<open>p\<close> and writes one line to stderr. The divisor
  \<open>100 / progressBarWidth\<close> is a constant expression of integers. The line is \<open>None\<close>
  where this model does not say what Go prints: a negative counter or a total that is
  not positive (the quotient is then negative, infinite or not a number), and a quotient
  that does not fit \<open>int\<close>.
\<close>

definition render :: "int \<Rightarrow> int \<Rightarrow> string option" where
  "render rd tot =
     (if rd < 0 \<or> tot \<le> 0 then None
      else (let percent = percent_of rd tot
            in case int_of_float64 (float64_round (percent / of_int (100 div progressBarWidth))) of
                 None \<Rightarrow> None
               | Some filled0 \<Rightarrow>
                   (let filled = (if progressBarWidth < filled0 then progressBarWidth else filled0);
                        bar = map (\<lambda>i. if int i < filled then CHR ''='' else CHR '' '')
                                [0..<nat progressBarWidth]
                    in Some (carriage_return # ''Progress: ['' @ bar @ ''] ''
                               @ fmt_6_2f percent @ ''%''))))"

definition renderDone :: string where
  "renderDone =
     carriage_return # ''Progress: ['' @ replicate (nat progressBarWidth) (CHR ''='')
       @ ''] 100.00% (sent) - waiting response...''"

text \<open>What a render of the upload writes.\<close>

fun render_line :: "render_call \<Rightarrow> string option" where
  "render_line (Render rd tot) = render rd tot"
| "render_line RenderDone = Some renderDone"

section \<open>Environments for the examples\<close>

text \<open>
  A stateless environment: \<open>os.Stat\<close> answers by path, every file opens and has the same
  content, every GET gets the same response, the request body of an upload is the content
  itself, and every POST sees the same \<open>Read\<close> calls and result.
\<close>

definition static_sys ::
  "(string \<Rightarrow> error + FileInfo) \<Rightarrow> (error + byte list) \<Rightarrow> (error + Response) \<Rightarrow>
     (read_call list \<times> (error + int)) \<Rightarrow> unit sys" where
  "static_sys st content resp post =
     \<lparr>os_Stat = (\<lambda>p w. (st p, w)), os_Open = (\<lambda>p w. (Inr 0, w)),
      read_to_end = (\<lambda>h w. (content, w)), http_Get = (\<lambda>u w. (resp, w)),
      multipart_body =
        (\<lambda>name h w.
           (case content of
              Inl err \<Rightarrow> Inl err
            | Inr c \<Rightarrow> Inr (c, ''multipart/form-data; boundary=0123456789abcdef''), w)),
      http_Do = (\<lambda>u ct n w. (post, w))\<rparr>"

definition regular_file :: "int \<Rightarrow> FileInfo" where
  "regular_file n = \<lparr>IsDir = False, Size = n\<rparr>"

definition response_of :: "int \<Rightarrow> string \<Rightarrow> Response" where
  "response_of code body = \<lparr>StatusCode = code, Body = Inr body\<rparr>"

definition directory :: FileInfo where
  "directory = \<lparr>IsDir = True, Size = 4096\<rparr>"

definition stat_of :: "string \<Rightarrow> error + FileInfo" where
  "stat_of p =
     (if p = ''dir'' then Inr directory
      else if p = ''big.iso'' then Inr (regular_file (250 * 1024 * 1024 + 1))
      else if p = ''missing'' then Inl (Err ''no such file or directory'')
      else Inr (regular_file 3))"

definition lookup_sys :: "int \<Rightarrow> string \<Rightarrow> unit sys" where
  "lookup_sys code body = static_sys stat_of (Inr []) (Inr (response_of code body)) ([], Inr 200)"

section \<open>Properties of the remote lookup and of the loop\<close>

text \<open>\<open>Contains\<close> is the substring relation: \<open>s = ps @ substr @ ss\<close> for some \<open>ps\<close>, \<open>ss\<close>.\<close>

lemma Contains_sublist: "Contains s substr = sublist substr s"
  by (induction s) (simp_all add: sublist_Cons_right)


lemma checkJottiSearch_no_Sleep:
  "checkJottiSearch sys c w = ((res, ev), w') \<Longrightarrow> Sleep d \<notin> set ev"
  by (auto simp: checkJottiSearch_def Let_def split: prod.splits sum.splits if_splits)


lemma calculateSHA1Checksum_no_Sleep:
  "calculateSHA1Checksum sys p w = ((res, ev), w') \<Longrightarrow> Sleep d \<notin> set ev"
  by (auto simp: calculateSHA1Checksum_def split: prod.splits sum.splits)

lemma uploadFile_no_Sleep:
  "uploadFile sys p w = ((res, ev), w') \<Longrightarrow> Sleep d \<notin> set ev"
  by (auto simp: uploadFile_def Let_def split: prod.splits sum.splits if_splits)




lemma fmt_d_503: "fmt_d 503 = ''503''"
  by code_simp

text \<open>
  Claim C1, as the code has it: the pause of one second is the last step of the loop body,
  and every other way out of the body is a \<open>continue\<close> before it. So a file that was
  uploaded is followed by exactly one pause of 1000 ms, as the last event of its iteration,
  and a file with any other outcome (skipped, error, already found) by none.
\<close>

theorem delay_only_after_upload:
  assumes "process_file sys p w = ((out, ev), w')"
  shows "(out \<noteq> Uploaded \<longrightarrow> (\<forall>d. Sleep d \<notin> set ev)) \<and>
         (out = Uploaded \<longrightarrow>
            (\<exists>ev'. ev = ev' @ [Sleep (1000 * Millisecond)] \<and> (\<forall>d. Sleep d \<notin> set ev')))"
  using assms
  by (auto simp: process_file_def Let_def split: prod.splits sum.splits if_splits option.splits proc.splits
      dest: checkJottiSearch_no_Sleep calculateSHA1Checksum_no_Sleep uploadFile_no_Sleep)

theorem delay_only_after_upload_witness:
  "(\<exists>ev'. snd (fst (process_file (lookup_sys 200 ''Hash not found'') ''a.bin'' ())) =
            ev' @ [Sleep (1000 * Millisecond)] \<and> (\<forall>d. Sleep d \<notin> set ev')) \<and>
   (\<forall>d. Sleep d \<notin> set (snd (fst (process_file (lookup_sys 200 ''Hash not found'') ''dir'' ()))))"
proof -
  let ?S = "lookup_sys 200 ''Hash not found''"
  have a: "fst (fst (process_file ?S ''a.bin'' ())) = Uploaded"
    by (simp add: process_file_def lookup_sys_def static_sys_def stat_of_def
      regular_file_def response_of_def maxUploadSize_def StatusOK_def calculateSHA1Checksum_def
      checkJottiSearch_def uploadFile_def Let_def new_progressReader_def)
  have b: "fst (fst (process_file ?S ''dir'' ())) = Skipped"
    by (simp add: process_file_def lookup_sys_def static_sys_def stat_of_def directory_def)
  have pa: "process_file ?S ''a.bin'' () =
              ((Uploaded, snd (fst (process_file ?S ''a.bin'' ()))), ())"
    using a by (cases "process_file ?S ''a.bin'' ()") auto
  have pb: "process_file ?S ''dir'' () =
              ((Skipped, snd (fst (process_file ?S ''dir'' ()))), ())"
    using b by (cases "process_file ?S ''dir'' ()") auto
  show ?thesis
    using delay_only_after_upload [OF pa] delay_only_after_upload [OF pb] by simp
qed

text \<open>
  Claim C1 as stated fails: a directory and a missing file reach their outcomes and the
  loop goes on at once; the only pause of the run follows the uploaded file.
\<close>

theorem delay_counterexample:
  "main_loop (lookup_sys 200 ''Hash not found'') [''dir'', ''missing'', ''a.bin''] () =
     ((0,
       [Stat ''dir'', Log (''Skipping directory: dir'' @ newline),
        Stat ''missing'', Log (''Error stat missing: no such file or directory'' @ newline),
        Stat ''a.bin'', Open ''a.bin'', Close ''a.bin'',
        Stdout (''SHA1 Checksum: '' @ hex_EncodeToString (sha1_Sum []) @ newline),
        HttpGet (jottiChecksumURL (hex_EncodeToString (sha1_Sum []))),
        Stdout (''Uploading a.bin: ''),
        Open ''a.bin'', HttpPost jottiUploadURL, Close ''a.bin'',
        Stdout (''OK'' @ newline),
        Stdout (jottiChecksumURL (hex_EncodeToString (sha1_Sum [])) @ newline),
        Sleep (1000 * Millisecond)]), ())"
  by (simp add: process_file_def lookup_sys_def static_sys_def stat_of_def directory_def
      regular_file_def response_of_def maxUploadSize_def StatusOK_def calculateSHA1Checksum_def
      checkJottiSearch_def uploadFile_def Let_def new_progressReader_def)



text \<open>
  Claim C4, as the code has it: with status 200 and a body read without error, a body that
  contains \<open>Hash not found\<close> and not \<open>Too many requests\<close> gives not found with the query
  URL, a body with neither marker gives found with the query URL; any status other than 200
  gives an error whose message carries the status code.
\<close>

theorem lookup_result:
  assumes "http_Get sys (jottiChecksumURL checksum) w = (Inr response, w1)"
  shows "(StatusCode response = StatusOK \<and> Body response = Inr body \<and>
            \<not> Contains body ''Too many requests'' \<and> Contains body ''Hash not found'' \<longrightarrow>
          fst (fst (checkJottiSearch sys checksum w)) =
            Return (False, jottiChecksumURL checksum, None)) \<and>
         (StatusCode response = StatusOK \<and> Body response = Inr body \<and>
            \<not> Contains body ''Too many requests'' \<and> \<not> Contains body ''Hash not found'' \<longrightarrow>
          fst (fst (checkJottiSearch sys checksum w)) =
            Return (True, jottiChecksumURL checksum, None)) \<and>
         (StatusCode response \<noteq> StatusOK \<longrightarrow>
          fst (fst (checkJottiSearch sys checksum w)) =
            Return (False, [],
              Some (Err (''unexpected response status: '' @ fmt_d (StatusCode response)))))"
  using assms by (simp add: checkJottiSearch_def Let_def)

theorem lookup_result_witness:
  "fst (fst (checkJottiSearch (lookup_sys 200 ''<h1>Hash not found</h1>'') ''0a'' ())) =
     Return (False, jottiChecksumURL ''0a'', None) \<and>
   fst (fst (checkJottiSearch (lookup_sys 200 ''<h1>Scan results</h1>'') ''0a'' ())) =
     Return (True, jottiChecksumURL ''0a'', None) \<and>
   fst (fst (checkJottiSearch (lookup_sys 503 ''Service Unavailable'') ''0a'' ())) =
     Return (False, [], Some (Err ''unexpected response status: 503''))"
proof -
  have g: "http_Get (lookup_sys code body) (jottiChecksumURL ''0a'') () =
             (Inr (response_of code body), ())" for code body
    by (simp add: lookup_sys_def static_sys_def)
  show ?thesis
    using lookup_result [OF g, of 200 "''<h1>Hash not found</h1>''" "''<h1>Hash not found</h1>''"]
      lookup_result [OF g, of 200 "''<h1>Scan results</h1>''" "''<h1>Scan results</h1>''"]
      lookup_result [OF g, of 503 "''Service Unavailable''" "''Service Unavailable''"]
    by (simp add: response_of_def StatusOK_def fmt_d_503)
qed

text \<open>
  Claim C4 as stated fails on a body with both markers: it contains \<open>Hash not found\<close>, and
  the lookup does not return not found, it ends the process.
\<close>

theorem lookup_not_found_counterexample:
  "StatusCode (response_of 200 ''Hash not found. Too many requests'') = StatusOK \<and>
   Contains ''Hash not found. Too many requests'' ''Hash not found'' \<and>
   fst (fst (checkJottiSearch (lookup_sys 200 ''Hash not found. Too many requests'') ''0a'' ()))
     \<noteq> Return (False, jottiChecksumURL ''0a'', None) \<and>
   fst (fst (checkJottiSearch (lookup_sys 200 ''Hash not found. Too many requests'') ''0a'' ()))
     = Exit 2"
  by (simp add: checkJottiSearch_def lookup_sys_def static_sys_def response_of_def StatusOK_def
      Let_def)

text \<open>
  Claim C5: a file whose \<open>os.Stat\<close> size is above 250 MiB is skipped. Its iteration makes
  the \<open>os.Stat\<close> call and writes one log line, and nothing else: no \<open>os.Open\<close> (neither for
  hashing nor for upload), no GET and no POST; the world is as \<open>os.Stat\<close> left it.
\<close>

theorem oversize_skipped:
  assumes "os_Stat sys p w = (Inr fi, w1)"
    and "maxUploadSize < Size fi"
  shows "\<exists>msg. process_file sys p w = ((Skipped, [Stat p, Log msg]), w1)"
  using assms by (simp add: process_file_def)

theorem oversize_skipped_witness:
  "maxUploadSize < 250 * 1024 * 1024 + 1 \<and>
   (\<exists>msg. process_file (lookup_sys 200 ''Hash not found'') ''big.iso'' () =
           ((Skipped, [Stat ''big.iso'', Log msg]), ()))"
proof -
  have st: "os_Stat (lookup_sys 200 ''Hash not found'') ''big.iso'' () =
              (Inr (regular_file (250 * 1024 * 1024 + 1)), ())"
    by (simp add: lookup_sys_def static_sys_def stat_of_def)
  have sz: "maxUploadSize < Size (regular_file (250 * 1024 * 1024 + 1))"
    by (simp add: maxUploadSize_def regular_file_def)
  show ?thesis
    using oversize_skipped [OF st sz] by (simp add: maxUploadSize_def)
qed



section \<open>Properties of the progress reader\<close>

lemma wrap64_id: "- (2 ^ 63) \<le> x \<Longrightarrow> x < 2 ^ 63 \<Longrightarrow> wrap64 x = x"
  by (simp add: wrap64_def)

lemma Read_result: "fst (fst (Read rd p b clock)) = fst (rd (pr_r p) b)"
  by (simp add: Read_def Let_def split: prod.splits)

lemma Read_reader: "pr_r (snd (Read rd p b clock)) = snd (rd (pr_r p) b)"
  by (simp add: Read_def Let_def split: prod.splits)

lemma Read_renderDone:
  "count_list (snd (fst (Read rd p b clock))) RenderDone =
     (if is_EOF (fst (fst (Read rd p b clock))) then 1 else 0)"
  by (simp add: Read_def Let_def is_EOF_def split: prod.splits)

lemma Read_calls_Cons:
  "fst (fst (Read_calls rd p ((b, clock) # calls))) =
     fst (fst (Read rd p b clock)) # fst (fst (Read_calls rd (snd (Read rd p b clock)) calls))"
  "snd (fst (Read_calls rd p ((b, clock) # calls))) =
     snd (fst (Read rd p b clock)) @ snd (fst (Read_calls rd (snd (Read rd p b clock)) calls))"
  "snd (Read_calls rd p ((b, clock) # calls)) =
     snd (Read_calls rd (snd (Read rd p b clock)) calls)"
  by (simp_all split: prod.splits)

lemma reader_calls_Cons:
  "fst (reader_calls rd s (b # bs)) = fst (rd s b) # fst (reader_calls rd (snd (rd s b)) bs)"
  "snd (reader_calls rd s (b # bs)) = snd (reader_calls rd (snd (rd s b)) bs)"
  by (simp_all split: prod.splits)

text \<open>
  Claim C7: over any sequence of \<open>Read\<close> calls, the wrapper returns for each call the
  count, the buffer and the error (end of data included) that the wrapped reader returns
  for the same buffers, and it leaves the wrapped reader in the state these calls alone
  leave it in: one call of the source for one call of the wrapper, nothing read ahead.
\<close>

theorem Read_transparent:
  "fst (fst (Read_calls rd p calls)) = fst (reader_calls rd (pr_r p) (map fst calls)) \<and>
   pr_r (snd (Read_calls rd p calls)) = snd (reader_calls rd (pr_r p) (map fst calls))"
proof (induction calls arbitrary: p)
  case Nil
  show ?case by simp
next
  case (Cons c calls)
  obtain b clock where c: "c = (b, clock)" by (cases c)
  show ?case
    unfolding c using Cons.IH [of "snd (Read rd p b clock)"]
    by (simp only: Read_calls_Cons reader_calls_Cons Read_result Read_reader list.map fst_conv)
qed

theorem Read_transparent_witness:
  "fst (fst (Read_calls bytes_Read (new_progressReader [10, 20, 30])
      [([0, 0], 100), ([], 200), ([7, 7], 300), ([7, 7], 400)])) =
     [(2, [10, 20], None), (0, [], None), (1, [30, 7], None), (0, [7, 7], Some EOF)] \<and>
   fst (reader_calls bytes_Read (bytes_NewReader [10, 20, 30]) [[0, 0], [], [7, 7], [7, 7]]) =
     [(2, [10, 20], None), (0, [], None), (1, [30, 7], None), (0, [7, 7], Some EOF)]"
  using Read_transparent [of bytes_Read "new_progressReader [10, 20, 30]"
      "[([0, 0], 100), ([], 200), ([7, 7], 300), ([7, 7], 400)]"]
  by (simp add: bytes_Read_def new_progressReader_def bytes_NewReader_def)

lemma Read_calls_renderDone:
  "count_list (snd (fst (Read_calls rd p calls))) RenderDone =
     length (filter is_EOF (fst (fst (Read_calls rd p calls))))"
proof (induction calls arbitrary: p)
  case Nil
  show ?case by simp
next
  case (Cons c calls)
  obtain b clock where c: "c = (b, clock)" by (cases c)
  show ?case
    unfolding c using Cons.IH [of "snd (Read rd p b clock)"] Read_renderDone [of rd p b clock]
    by (simp add: Read_calls_Cons del: Read_calls.simps)
qed

lemma Read_bytes_step:
  assumes "progress_inv p"
  shows "progress_inv (snd (Read bytes_Read p b clock)) \<and>
         br_s (pr_r (snd (Read bytes_Read p b clock))) = br_s (pr_r p) \<and>
         br_i (pr_r (snd (Read bytes_Read p b clock))) =
           min (length (br_s (pr_r p))) (br_i (pr_r p) + length b)"
proof (cases "length (br_s (pr_r p)) \<le> br_i (pr_r p)")
  case True
  with assms show ?thesis
    by (simp add: Read_def bytes_Read_def progress_inv_def)
next
  case False
  define n where "n = min (length b) (length (br_s (pr_r p)) - br_i (pr_r p))"
  have w: "wrap64 (pr_read p + int n) = pr_read p + int n"
    using assms False by (intro wrap64_id) (auto simp: progress_inv_def n_def)
  from False assms w show ?thesis
    by (auto simp: Read_def bytes_Read_def progress_inv_def Let_def n_def min_def)
qed

lemma Read_calls_bytes:
  assumes "progress_inv p"
  shows "progress_inv (snd (Read_calls bytes_Read p calls)) \<and>
         br_s (pr_r (snd (Read_calls bytes_Read p calls))) = br_s (pr_r p) \<and>
         br_i (pr_r (snd (Read_calls bytes_Read p calls))) =
           min (length (br_s (pr_r p))) (br_i (pr_r p) + sum_list (map (length \<circ> fst) calls))"
  using assms
proof (induction calls arbitrary: p)
  case Nil
  then show ?case by (simp add: progress_inv_def)
next
  case (Cons c calls)
  obtain b clock where c: "c = (b, clock)" by (cases c)
  let ?p1 = "snd (Read bytes_Read p b clock)"
  from Read_bytes_step [OF Cons.prems, of b clock]
  have p1: "progress_inv ?p1" "br_s (pr_r ?p1) = br_s (pr_r p)"
    "br_i (pr_r ?p1) = min (length (br_s (pr_r p))) (br_i (pr_r p) + length b)"
    by simp_all
  from Cons.IH [OF p1(1)] p1 show ?case
    unfolding c by (simp add: Read_calls_Cons min_def del: Read_calls.simps)
qed

lemma new_progressReader_inv: "length raw < 2 ^ 63 \<Longrightarrow> progress_inv (new_progressReader raw)"
  by (simp add: progress_inv_def new_progressReader_def bytes_NewReader_def)

text \<open>
  Claim C6: for the reader that \<open>uploadFile\<close> builds over \<open>raw\<close>, after any sequence of
  \<open>Read\<close> calls (so also after each of its prefixes) the total is the length of \<open>raw\<close> and
  the counter is the lesser of that length and the sum of the buffer lengths. So it never
  exceeds the total, and it is the total once the source has handed out all its bytes.
\<close>

theorem read_counter:
  assumes "length raw < 2 ^ 63"
  shows "pr_total (snd (Read_calls bytes_Read (new_progressReader raw) calls)) = int (length raw) \<and>
         pr_read (snd (Read_calls bytes_Read (new_progressReader raw) calls)) =
           int (min (length raw) (sum_list (map (length \<circ> fst) calls))) \<and>
         pr_read (snd (Read_calls bytes_Read (new_progressReader raw) calls)) \<le> int (length raw) \<and>
         (length raw \<le> br_i (pr_r (snd (Read_calls bytes_Read (new_progressReader raw) calls))) \<longrightarrow>
          pr_read (snd (Read_calls bytes_Read (new_progressReader raw) calls)) = int (length raw))"
  using Read_calls_bytes [OF new_progressReader_inv [OF assms], of calls]
  by (auto simp: progress_inv_def new_progressReader_def bytes_NewReader_def)

theorem read_counter_witness:
  "length [10, 20, 30 :: byte] < 2 ^ 63 \<and>
   pr_total (snd (Read_calls bytes_Read (new_progressReader [10, 20, 30])
      [([0, 0], 100), ([], 200), ([0, 0], 300)])) = 3 \<and>
   pr_read (snd (Read_calls bytes_Read (new_progressReader [10, 20, 30])
      [([0, 0], 100), ([], 200), ([0, 0], 300)])) = 3 \<and>
   length [10, 20, 30 :: byte] \<le> br_i (pr_r (snd (Read_calls bytes_Read (new_progressReader [10, 20, 30])
      [([0, 0], 100), ([], 200), ([0, 0], 300)])))"
proof -
  have h: "length [10, 20, 30 :: byte] < 2 ^ 63" by simp
  show ?thesis
    using read_counter [OF h, of "[([0, 0], 100), ([], 200), ([0, 0], 300)]"]
    by (simp add: Read_def bytes_Read_def new_progressReader_def bytes_NewReader_def
        wrap64_def Sub_def Millisecond_def Let_def)
qed

text \<open>
  Claim C2, as the code has it: \<open>renderDone\<close> runs in every \<open>Read\<close> call that the source
  answers with \<open>io.EOF\<close>. Over a sequence of calls the terminal render is produced once
  for each call that returns end of stream; it is produced exactly once when the sequence
  ends with the first such call.
\<close>

theorem terminal_render_count:
  "count_list (snd (fst (Read_calls rd p calls))) RenderDone =
     length (filter is_EOF (fst (fst (Read_calls rd p calls)))) \<and>
   (fst (fst (Read_calls rd p calls)) \<noteq> [] \<and>
    (\<forall>res \<in> set (butlast (fst (fst (Read_calls rd p calls)))). \<not> is_EOF res) \<and>
    is_EOF (last (fst (fst (Read_calls rd p calls)))) \<longrightarrow>
    count_list (snd (fst (Read_calls rd p calls))) RenderDone = 1)"
proof -
  let ?rs = "fst (fst (Read_calls rd p calls))"
  have "length (filter is_EOF ?rs) = 1"
    if ne: "?rs \<noteq> []" and bl: "\<forall>res \<in> set (butlast ?rs). \<not> is_EOF res" and l: "is_EOF (last ?rs)"
  proof -
    have "?rs = butlast ?rs @ [last ?rs]" using ne by simp
    then have "filter is_EOF ?rs = filter is_EOF (butlast ?rs) @ filter is_EOF [last ?rs]"
      by (metis filter_append)
    moreover have "filter is_EOF (butlast ?rs) = []" using bl by (simp add: filter_empty_conv)
    ultimately show ?thesis using l by simp
  qed
  then show ?thesis using Read_calls_renderDone [of rd p calls] by simp
qed

theorem terminal_render_count_witness:
  "count_list (snd (fst (Read_calls bytes_Read (new_progressReader [10, 20, 30])
      [([0, 0], 100), ([0, 0], 200), ([0, 0], 300)]))) RenderDone = 1 \<and>
   fst (fst (Read_calls bytes_Read (new_progressReader [10, 20, 30])
      [([0, 0], 100), ([0, 0], 200), ([0, 0], 300)])) =
     [(2, [10, 20], None), (1, [30, 0], None), (0, [0, 0], Some EOF)]"
proof -
  have r: "fst (fst (Read_calls bytes_Read (new_progressReader [10, 20, 30])
      [([0, 0], 100), ([0, 0], 200), ([0, 0], 300)])) =
     [(2, [10, 20], None), (1, [30, 0], None), (0, [0, 0], Some EOF)]"
    by (simp add: Read_def bytes_Read_def new_progressReader_def bytes_NewReader_def
        wrap64_def Sub_def Millisecond_def Let_def)
  have c: "count_list (snd (fst (Read_calls bytes_Read (new_progressReader [10, 20, 30])
      [([0, 0], 100), ([0, 0], 200), ([0, 0], 300)]))) RenderDone = 1"
    using terminal_render_count [of bytes_Read "new_progressReader [10, 20, 30]"
        "[([0, 0], 100), ([0, 0], 200), ([0, 0], 300)]", unfolded r]
    by (simp add: is_EOF_def del: Read_calls.simps)
  show ?thesis
    using c r by (simp del: Read_calls.simps)
qed

text \<open>
  Claim C2 as stated fails for a caller that reads on after the end of the stream: the
  second and the third call below both return \<open>io.EOF\<close>, and each renders the terminal
  state.
\<close>

theorem terminal_render_counterexample:
  "Read_calls bytes_Read (new_progressReader [10])
      [([0, 0], 63900000000000000000), ([0, 0], 63900000000000000001),
       ([0, 0], 63900000000000000002)] =
     (([(1, [10, 0], None), (0, [0, 0], Some EOF), (0, [0, 0], Some EOF)],
       [Render 1 1, RenderDone, RenderDone]),
      \<lparr>pr_r = \<lparr>br_s = [10], br_i = 1\<rparr>, pr_total = 1, pr_read = 1,
       pr_lastTick = 63900000000000000000\<rparr>)"
  by (simp add: Read_def bytes_Read_def new_progressReader_def bytes_NewReader_def
      wrap64_def Sub_def Millisecond_def Let_def)

section \<open>Properties of the checksum\<close>

lemma length_sha1_digest: "length (sha1_digest st) = 20"
  by (cases st) (simp add: bytes_of_word32_def)

lemma length_sha1_Sum: "length (sha1_Sum msg) = 20"
  by (simp add: sha1_Sum_def length_sha1_digest)

lemma length_hex_EncodeToString: "length (hex_EncodeToString src) = 2 * length src"
  by (induction src) (simp_all add: hex_EncodeToString_def)

lemma high_nibble_less: "unat (drop_bit 4 (v :: byte)) < 16"
proof -
  have "unat (drop_bit 4 v) = unat v div 2 ^ 4"
    by (simp add: drop_bit_eq_div unat_div)
  moreover have "unat v < 2 ^ 8"
    using unsigned_less [of v] by simp
  ultimately show ?thesis by simp
qed

lemma low_nibble_less: "unat ((v :: byte) AND 0x0f) < 16"
proof -
  have "v AND 0x0f \<le> 0x0f" by (rule word_and_le1)
  then have "unat (v AND 0x0f) \<le> unat (0x0f :: byte)" by (simp only: word_le_nat_alt)
  then show ?thesis by simp
qed

lemma hextable_nth: "k < 16 \<Longrightarrow> hextable ! k \<in> set hextable"
  by (rule nth_mem) (simp add: hextable_def)

lemma hex_EncodeToString_lower: "is_lower_hex (hex_EncodeToString src)"
  by (induction src)
    (simp_all add: hex_EncodeToString_def is_lower_hex_def hextable_nth high_nibble_less
      low_nibble_less del: set_simps)

text \<open>
  Claim C9: the digest depends on the bytes read from the file and on nothing else. Two
  runs of \<open>calculateSHA1Checksum\<close>, in any two environments and on any two paths, that
  open their file and read the same content return the same string with no error: the
  hex encoding of the SHA-1 digest of that content, which has 40 characters, all of them
  in \<open>0123456789abcdef\<close>.
\<close>

theorem checksum_pure_hex:
  assumes "os_Open sys1 p1 w1 = (Inr f1, u1)"
    and "read_to_end sys1 f1 u1 = (Inr content, v1)"
    and "os_Open sys2 p2 w2 = (Inr f2, u2)"
    and "read_to_end sys2 f2 u2 = (Inr content, v2)"
  shows "fst (fst (calculateSHA1Checksum sys1 p1 w1)) =
           (hex_EncodeToString (sha1_Sum content), None) \<and>
         fst (fst (calculateSHA1Checksum sys2 p2 w2)) = fst (fst (calculateSHA1Checksum sys1 p1 w1)) \<and>
         length (hex_EncodeToString (sha1_Sum content)) = 40 \<and>
         is_lower_hex (hex_EncodeToString (sha1_Sum content))"
  using assms
  by (simp add: calculateSHA1Checksum_def length_hex_EncodeToString length_sha1_Sum
      hex_EncodeToString_lower)

theorem checksum_pure_hex_witness:
  "fst (fst (calculateSHA1Checksum (lookup_sys 200 ''Hash not found'') ''a.bin'' ())) =
     (hex_EncodeToString (sha1_Sum []), None) \<and>
   fst (fst (calculateSHA1Checksum (lookup_sys 404 []) ''copy-of-a.bin'' ())) =
     fst (fst (calculateSHA1Checksum (lookup_sys 200 ''Hash not found'') ''a.bin'' ())) \<and>
   length (hex_EncodeToString (sha1_Sum [])) = 40 \<and>
   is_lower_hex (hex_EncodeToString (sha1_Sum []))"
  by (rule checksum_pure_hex [where ?f1.0 = 0 and ?f2.0 = 0 and ?u1.0 = "()" and ?u2.0 = "()"
        and ?v1.0 = "()" and ?v2.0 = "()"])
    (simp_all add: lookup_sys_def static_sys_def)

section \<open>Properties of float64 rounding\<close>

lemma roundeven_near: "\<bar>of_int (roundeven q) - q\<bar> \<le> 1 / 2"
proof -
  have "of_int \<lfloor>q\<rfloor> \<le> q" "q < of_int \<lfloor>q\<rfloor> + 1" by linarith+
  then show ?thesis by (auto simp: roundeven_def Let_def)
qed

lemma roundeven_between:
  "q - 1 / 2 \<le> of_int (roundeven q)" "of_int (roundeven q) \<le> q + 1 / 2"
  using roundeven_near [of q] by linarith+

lemma powi_split: "m = n + int k \<Longrightarrow> (2::rat) powi m = 2 ^ k * 2 powi n"
  by (simp add: power_int_add mult.commute)

lemma powi_div: "m = a - b \<Longrightarrow> (2::rat) powi a / 2 powi b = 2 powi m"
  by (simp add: power_int_diff)

lemma powi_nat_inverse:
  assumes "n \<le> 52"
  shows "of_int (2 ^ nat (52 - n)) * (2::rat) powi (n - 52) = 1"
proof -
  have "(2::rat) powi (n - 52) = inverse (2 powi (52 - n))"
    using power_int_minus [of "2::rat" "52 - n"] by simp
  moreover have "(2::rat) powi (52 - n) = 2 ^ nat (52 - n)"
    using assms by (simp add: power_int_nonneg_exp)
  ultimately show ?thesis by simp
qed

lemma bitlen_powi:
  assumes "0 < a"
  shows "(2::rat) powi (bitlen a - 1) \<le> of_int a" "of_int a < (2::rat) powi (bitlen a)"
proof -
  from bitlen_bounds [OF assms]
  have b: "2 ^ nat (bitlen a - 1) \<le> a" "a < 2 ^ nat (bitlen a)" by simp_all
  have p: "1 \<le> bitlen a" using assms by (simp add: bitlen_alt_def)
  have "(of_int (2 ^ nat (bitlen a - 1)) :: rat) \<le> of_int a" using b(1) by (simp only: of_int_le_iff)
  then show "(2::rat) powi (bitlen a - 1) \<le> of_int a"
    using p by (simp add: power_int_def)
  have "(of_int a :: rat) < of_int (2 ^ nat (bitlen a))" using b(2) by (simp only: of_int_less_iff)
  then show "of_int a < (2::rat) powi (bitlen a)"
    using p by (simp add: power_int_def)
qed

lemma ilog2_bounds:
  assumes "0 < x"
  shows "2 powi (ilog2 x) \<le> x" "x < 2 powi (ilog2 x + 1)"
proof -
  obtain a b where q: "quotient_of x = (a, b)" by (cases "quotient_of x")
  then have b: "0 < b" and x: "x = of_int a / of_int b"
    using quotient_of_denom_pos quotient_of_div by blast+
  from assms x b have a: "0 < a" by (simp add: zero_less_divide_iff)
  define e where "e = bitlen a - bitlen b"
  have lo: "(2::rat) powi (e - 1) < x"
  proof -
    have "(2::rat) powi (e - 1) = 2 powi (bitlen a - 1) / 2 powi (bitlen b)"
      by (rule powi_div [symmetric]) (simp add: e_def)
    also have "\<dots> \<le> of_int a / 2 powi (bitlen b)"
      using bitlen_powi(1) [OF a] by (simp add: divide_right_mono)
    also have "\<dots> < of_int a / of_int b"
      using bitlen_powi(2) [OF b] a b by (simp add: divide_strict_left_mono)
    finally show ?thesis using x by simp
  qed
  have hi: "x < (2::rat) powi (e + 1)"
  proof -
    have "x = of_int a / of_int b" by (rule x)
    also have "\<dots> < 2 powi (bitlen a) / of_int b"
      using bitlen_powi(2) [OF a] b by (simp add: divide_strict_right_mono)
    also have "\<dots> \<le> 2 powi (bitlen a) / 2 powi (bitlen b - 1)"
      using bitlen_powi(1) [OF b] b by (intro divide_left_mono) (simp_all add: mult_pos_pos)
    also have "\<dots> = 2 powi (e + 1)"
      by (rule powi_div) (simp add: e_def)
    finally show ?thesis .
  qed
  have il: "ilog2 x = (if 2 powi e \<le> x then e else e - 1)"
    by (simp add: ilog2_def q e_def Let_def)
  show "2 powi (ilog2 x) \<le> x" using il lo by (auto simp: less_imp_le)
  show "x < 2 powi (ilog2 x + 1)" using il hi by (auto simp: not_le)
qed


lemma ilog2_less: "0 < x \<Longrightarrow> x < 2 powi n \<Longrightarrow> ilog2 x < n"
proof (rule ccontr)
  assume x: "0 < x" "x < 2 powi n" and "\<not> ilog2 x < n"
  then have "(2::rat) powi n \<le> 2 powi (ilog2 x)"
    by (intro power_int_increasing) simp_all
  with ilog2_bounds(1) [OF x(1)] x(2) show False by simp
qed

lemma ilog2_ge: "0 < x \<Longrightarrow> 2 powi n \<le> x \<Longrightarrow> n \<le> ilog2 x"
proof (rule ccontr)
  assume x: "0 < x" "2 powi n \<le> x" and "\<not> n \<le> ilog2 x"
  then have "(2::rat) powi (ilog2 x + 1) \<le> 2 powi n"
    by (intro power_int_increasing) simp_all
  with ilog2_bounds(2) [OF x(1)] x(2) show False by simp
qed

text \<open>The significand of a rounded positive number lies between 2^52 and 2^53.\<close>

lemma significand_bounds:
  assumes "0 < x"
  shows "2 ^ 52 \<le> roundeven (x / 2 powi (ilog2 x - 52))"
    and "roundeven (x / 2 powi (ilog2 x - 52)) \<le> 2 ^ 53"
proof -
  let ?u = "(2::rat) powi (ilog2 x - 52)"
  let ?q = "x / ?u"
  have u: "0 < ?u" by simp
  have e1: "(2::rat) powi (ilog2 x) = 2 ^ 52 * ?u"
    by (rule powi_split) simp
  have e2: "(2::rat) powi (ilog2 x + 1) = 2 ^ 53 * ?u"
    by (rule powi_split) simp
  have lo: "2 ^ 52 \<le> ?q"
    using ilog2_bounds(1) [OF assms] u unfolding e1 by (simp add: le_divide_eq)
  have hi: "?q < 2 ^ 53"
    using ilog2_bounds(2) [OF assms] u unfolding e2 by (simp add: divide_less_eq)
  note n = roundeven_between [of ?q]
  have "(2::rat) ^ 52 - 1 < of_int (roundeven ?q)" using lo n(1) by linarith
  then have "(of_int (2 ^ 52 - 1) :: rat) < of_int (roundeven ?q)" by simp
  then have "2 ^ 52 - 1 < roundeven ?q" by (simp only: of_int_less_iff)
  then show "2 ^ 52 \<le> roundeven ?q" by simp
  have "of_int (roundeven ?q) < (2::rat) ^ 53 + 1" using hi n(2) by linarith
  then have "(of_int (roundeven ?q) :: rat) < of_int (2 ^ 53 + 1)" by simp
  then have "roundeven ?q < 2 ^ 53 + 1" by (simp only: of_int_less_iff)
  then show "roundeven ?q \<le> 2 ^ 53" by simp
qed

lemma float64_round_pos:
  assumes "0 < x"
  shows "float64_round x = of_int (roundeven (x / 2 powi (ilog2 x - 52))) * 2 powi (ilog2 x - 52)"
  using assms by (simp add: float64_round_def Let_def)

lemma float64_round_near:
  assumes "0 < x"
  shows "\<bar>float64_round x - x\<bar> \<le> 2 powi (ilog2 x - 52) / 2"
proof -
  let ?u = "(2::rat) powi (ilog2 x - 52)"
  have u: "0 < ?u" by simp
  have "float64_round x - x = (of_int (roundeven (x / ?u)) - x / ?u) * ?u"
    using u by (simp add: float64_round_pos [OF assms] field_simps)
  then have "\<bar>float64_round x - x\<bar> = \<bar>of_int (roundeven (x / ?u)) - x / ?u\<bar> * ?u"
    using u by (simp add: abs_mult)
  also have "\<dots> \<le> 1 / 2 * ?u"
    using roundeven_near [of "x / ?u"] u by (intro mult_right_mono) simp_all
  finally show ?thesis by simp
qed

lemma float64_round_range:
  assumes "0 < x"
  shows "2 powi (ilog2 x) \<le> float64_round x" and "float64_round x \<le> 2 powi (ilog2 x + 1)"
proof -
  let ?u = "(2::rat) powi (ilog2 x - 52)"
  let ?m = "roundeven (x / ?u)"
  have u: "0 < ?u" by simp
  have e1: "(2::rat) powi (ilog2 x) = 2 ^ 52 * ?u"
    by (rule powi_split) simp
  have e2: "(2::rat) powi (ilog2 x + 1) = 2 ^ 53 * ?u"
    by (rule powi_split) simp
  have "(of_int (2 ^ 52) :: rat) \<le> of_int ?m"
    using significand_bounds(1) [OF assms] by (simp only: of_int_le_iff)
  then show "2 powi (ilog2 x) \<le> float64_round x"
    unfolding e1 float64_round_pos [OF assms] using u by (intro mult_right_mono) simp_all
  have "(of_int ?m :: rat) \<le> of_int (2 ^ 53)"
    using significand_bounds(2) [OF assms] by (simp only: of_int_le_iff)
  then show "float64_round x \<le> 2 powi (ilog2 x + 1)"
    unfolding e2 float64_round_pos [OF assms] using u by (intro mult_right_mono) simp_all
qed


lemma float64_round_nonneg: "0 \<le> y \<Longrightarrow> 0 \<le> float64_round y"
proof (cases "y = 0")
  case True
  then show ?thesis by (simp add: float64_round_def)
next
  case False
  assume "0 \<le> y"
  with False have y: "0 < y" by simp
  have "(0::rat) \<le> 2 powi (ilog2 y)" by simp
  with float64_round_range(1) [OF y] show ?thesis by linarith
qed

text \<open>Rounding does not go below an integer that the argument has reached.\<close>

lemma float64_round_ge_int:
  assumes "of_int k \<le> y" and "0 \<le> k" and "k \<le> 2 ^ 53"
  shows "of_int k \<le> float64_round y"
proof (cases "k = 0")
  case True
  with assms(1) show ?thesis using float64_round_nonneg [of y] by simp
next
  case False
  with assms(2) have k: "1 \<le> k" by simp
  then have "(1::rat) \<le> of_int k" by simp
  with assms(1) have y1: "1 \<le> y" by linarith
  then have y: "0 < y" by simp
  let ?e = "ilog2 y"
  let ?u = "(2::rat) powi (?e - 52)"
  have u: "0 < ?u" by simp
  show ?thesis
  proof (cases "53 \<le> ?e")
    case True
    have "(of_int k :: rat) \<le> of_int (2 ^ 53)" using assms(3) by (simp only: of_int_le_iff)
    also have "\<dots> = 2 powi 53" by simp
    also have "\<dots> \<le> 2 powi ?e" using True by (intro power_int_increasing) simp_all
    also have "\<dots> \<le> float64_round y" by (rule float64_round_range(1) [OF y])
    finally show ?thesis .
  next
    case False
    define c :: int where "c = 2 ^ nat (52 - ?e)"
    have cu: "of_int c * ?u = 1"
      unfolding c_def using False by (intro powi_nat_inverse) simp
    have "of_int (k * c) = of_int k * (of_int c * ?u) / ?u" using u by simp
    also have "\<dots> = of_int k / ?u" by (simp add: cu)
    also have "\<dots> \<le> y / ?u" using assms(1) u by (simp add: divide_right_mono)
    finally have "(of_int (k * c) :: rat) - 1 / 2 \<le> of_int (roundeven (y / ?u))"
      using roundeven_between(1) [of "y / ?u"] by linarith
    then have "(of_int (k * c - 1) :: rat) < of_int (roundeven (y / ?u))" by simp
    then have "k * c - 1 < roundeven (y / ?u)" by (simp only: of_int_less_iff)
    then have "k * c \<le> roundeven (y / ?u)" by simp
    then have "(of_int (k * c) :: rat) \<le> of_int (roundeven (y / ?u))" by (simp only: of_int_le_iff)
    then have step: "of_int (k * c) * ?u \<le> of_int (roundeven (y / ?u)) * ?u"
      using u by (intro mult_right_mono) simp_all
    have "of_int (k * c) * ?u = of_int k * (of_int c * ?u)" by simp
    then have kk: "of_int (k * c) * ?u = of_int k" by (simp only: cu mult_1_right)
    from step show ?thesis
      unfolding float64_round_pos [OF y] kk .
  qed
qed

text \<open>
  A float64 below \<open>5 * k\<close> (at most 100) divided by 5 rounds to less than \<open>k\<close>: the
  quotient is at least a fifth of a unit in the last place of the dividend below \<open>k\<close>,
  and rounding moves it by at most an eighth.
\<close>

lemma float64_round_fifth_less:
  assumes z: "0 < z" and k: "5 * of_int k \<le> (100::rat)" and less: "float64_round z < 5 * of_int k"
  shows "float64_round (float64_round z / 5) < of_int k"
proof -
  let ?x = "float64_round z"
  let ?ez = "ilog2 z"
  let ?ux = "(2::rat) powi (?ez - 52)"
  let ?m = "roundeven (z / ?ux)"
  have ux: "0 < ?ux" by simp
  have x: "?x = of_int ?m * ?ux" by (rule float64_round_pos [OF z])
  have xlo: "2 powi ?ez \<le> ?x" and xhi: "?x \<le> 2 powi (?ez + 1)"
    by (rule float64_round_range [OF z])+
  have xpos: "0 < ?x" using xlo zero_less_power_int [of "2::rat" ?ez] by linarith
  have ez: "?ez < 7"
  proof (rule ccontr)
    assume "\<not> ?ez < 7"
    then have "(2::rat) powi 7 \<le> 2 powi ?ez" by (intro power_int_increasing) simp_all
    with xlo less k show False by simp
  qed
  define c :: int where "c = 2 ^ nat (52 - ?ez)"
  have cu: "of_int c * ?ux = 1"
    unfolding c_def using ez by (intro powi_nat_inverse) simp
  have gap: "?ux \<le> 5 * of_int k - ?x"
  proof -
    have d: "5 * of_int k - ?x = of_int (5 * k * c - ?m) * ?ux"
    proof -
      have "of_int (5 * k * c - ?m) * ?ux = 5 * of_int k * (of_int c * ?ux) - of_int ?m * ?ux"
        by (simp add: algebra_simps)
      then show ?thesis by (simp add: cu x)
    qed
    have "0 < of_int (5 * k * c - ?m) * ?ux" using less d by simp
    then have "(0::rat) < of_int (5 * k * c - ?m)" using ux by (simp add: zero_less_mult_iff)
    then have "0 < 5 * k * c - ?m" by (simp only: of_int_0_less_iff)
    then have "1 \<le> 5 * k * c - ?m" by simp
    then have "(1::rat) \<le> of_int (5 * k * c - ?m)" by (simp only: of_int_1_le_iff)
    then have "1 * ?ux \<le> of_int (5 * k * c - ?m) * ?ux"
      using ux by (intro mult_right_mono) simp_all
    then show ?thesis using d by simp
  qed
  let ?y = "?x / 5"
  have y: "0 < ?y" using xpos by simp
  have "?y < 2 powi (?ez - 1)"
  proof -
    have "(2::rat) powi (?ez + 1) = 2 ^ 2 * 2 powi (?ez - 1)" by (rule powi_split) simp
    with xhi have "?x \<le> 4 * 2 powi (?ez - 1)" by simp
    moreover have "(0::rat) < 2 powi (?ez - 1)" by simp
    ultimately show ?thesis by linarith
  qed
  then have "ilog2 ?y < ?ez - 1" by (rule ilog2_less [OF y])
  then have "ilog2 ?y - 52 \<le> ?ez - 54" by simp
  then have "(2::rat) powi (ilog2 ?y - 52) \<le> 2 powi (?ez - 54)"
    by (intro power_int_increasing) simp_all
  moreover have "?ux = 2 ^ 2 * 2 powi (?ez - 54)" by (rule powi_split) simp
  ultimately have u': "2 powi (ilog2 ?y - 52) \<le> ?ux / 4" by simp
  have "float64_round ?y \<le> ?y + 2 powi (ilog2 ?y - 52) / 2"
    using float64_round_near [OF y] by linarith
  with u' have "float64_round ?y \<le> ?y + ?ux / 8" by linarith
  moreover have "?y \<le> of_int k - ?ux / 5" using gap by linarith
  ultimately show ?thesis using ux by linarith
qed

text \<open>
  Dividing a non-negative float64 by 5 in float64 arithmetic and truncating gives, up to
  the cap at 20, the integer part of the exact quotient.
\<close>

lemma floor_fifth_capped:
  assumes "0 \<le> z"
  shows "min 20 \<lfloor>float64_round (float64_round z / 5)\<rfloor> = min 20 \<lfloor>float64_round z / 5\<rfloor>"
proof (cases "z = 0")
  case True
  then show ?thesis by (simp add: float64_round_def)
next
  case False
  with assms have z: "0 < z" by simp
  let ?x = "float64_round z"
  have xpos: "0 \<le> ?x" using assms by (rule float64_round_nonneg)
  show ?thesis
  proof (cases "20 \<le> ?x / 5")
    case True
    then have "of_int 20 \<le> ?x / 5" by simp
    then have "of_int 20 \<le> float64_round (?x / 5)"
      by (rule float64_round_ge_int) simp_all
    then have "20 \<le> \<lfloor>float64_round (?x / 5)\<rfloor>" by (simp add: le_floor_iff)
    moreover have "20 \<le> \<lfloor>?x / 5\<rfloor>" using True by (simp add: le_floor_iff)
    ultimately show ?thesis by simp
  next
    case False
    define k where "k = \<lfloor>?x / 5\<rfloor>"
    have k0: "0 \<le> k" using xpos by (simp add: k_def)
    have k19: "k < 20" using False by (simp add: k_def floor_less_iff)
    have lo: "of_int k \<le> ?x / 5" unfolding k_def by (rule of_int_floor_le)
    have hi: "?x / 5 < of_int (k + 1)" unfolding k_def by linarith
    have "of_int k \<le> float64_round (?x / 5)"
      using lo k0 k19 by (intro float64_round_ge_int) simp_all
    moreover have "float64_round (?x / 5) < of_int (k + 1)"
    proof (rule float64_round_fifth_less [OF z])
      have "(of_int (k + 1) :: rat) \<le> of_int 20" using k19 by (simp only: of_int_le_iff)
      then show "5 * of_int (k + 1) \<le> (100::rat)" by simp
      show "?x < 5 * of_int (k + 1)" using hi by simp
    qed
    ultimately have "\<lfloor>float64_round (?x / 5)\<rfloor> = k" by (simp add: floor_unique)
    then show ?thesis by (simp add: k_def)
  qed
qed

section \<open>Properties of the progress line\<close>

lemma float64_round_le_double:
  assumes "0 \<le> a"
  shows "float64_round a \<le> 2 * a"
proof (cases "a = 0")
  case True
  then show ?thesis by (simp add: float64_round_def)
next
  case False
  with assms have a: "0 < a" by simp
  have "(2::rat) powi (ilog2 a + 1) = 2 ^ 1 * 2 powi (ilog2 a)" by (rule powi_split) simp
  with float64_round_range(2) [OF a] ilog2_bounds(1) [OF a] show ?thesis by simp
qed

lemma float64_round_gt_half:
  assumes "0 < a"
  shows "a / 2 < float64_round a"
proof -
  have "(2::rat) powi (ilog2 a + 1) = 2 ^ 1 * 2 powi (ilog2 a)" by (rule powi_split) simp
  with float64_round_range(1) [OF assms] ilog2_bounds(2) [OF assms] show ?thesis by simp
qed

lemma percent_of_eq:
  assumes "0 \<le> rd" and "0 < tot"
  shows "\<exists>z. 0 \<le> z \<and> percent_of rd tot = float64_round z \<and>
             z * of_int tot \<le> 800 * of_int rd"
proof -
  let ?r = "of_int rd :: rat" and ?t = "of_int tot :: rat"
  let ?A = "float64_round ?r"
  let ?B = "float64_round (?A * 100)"
  let ?T = "float64_round ?t"
  have r: "0 \<le> ?r" and t: "0 < ?t" using assms by simp_all
  have A: "0 \<le> ?A" "?A \<le> 2 * ?r"
    using r by (rule float64_round_nonneg, rule float64_round_le_double)
  have A100: "0 \<le> ?A * 100" using A(1) by simp
  have B: "0 \<le> ?B" "?B \<le> 2 * (?A * 100)"
    using A100 by (rule float64_round_nonneg, rule float64_round_le_double)
  have T: "?t / 2 < ?T" using t by (rule float64_round_gt_half)
  then have Tpos: "0 < ?T" using t by linarith
  have z0: "0 \<le> ?B / ?T" using B(1) Tpos by simp
  have "?B / ?T * ?t \<le> ?B / ?T * (2 * ?T)"
    using z0 T by (intro mult_left_mono) simp_all
  also have "\<dots> = 2 * ?B" using Tpos by simp
  also have "\<dots> \<le> 800 * ?r" using B(2) A(2) by linarith
  finally have "?B / ?T * ?t \<le> 800 * ?r" .
  with z0 show ?thesis
    by (intro exI [of _ "?B / ?T"]) (simp add: percent_of_def float64_of_int_def)
qed

lemma bar_cells:
  "map (\<lambda>i. if int i < f then a else b) [0..<n] =
     replicate (min n (nat f)) a @ replicate (n - nat f) b"
proof (induction n)
  case 0
  show ?case by simp
next
  case (Suc n)
  show ?case
  proof (cases "int n < f")
    case True
    then have "n < nat f" by simp
    with Suc True show ?thesis by (simp add: min_def replicate_append_same)
  next
    case False
    then have "nat f \<le> n" by simp
    with Suc False show ?thesis
      by (simp add: min_def Suc_diff_le replicate_append_same)
  qed
qed

lemma digit_char_not_newline: "d < 10 \<Longrightarrow> digit_char d \<noteq> CHR 0x0A"
proof
  assume d: "d < 10" and "digit_char d = CHR 0x0A"
  then have "(of_char (char_of (48 + d)) :: nat) = of_char (CHR 0x0A)"
    by (simp only: digit_char_def)
  then have "(48 + d) mod 256 = 10" by (simp only: of_char_of) simp
  with d show False by simp
qed

lemma dec_nat_no_newline: "CHR 0x0A \<notin> set (dec_nat n)"
proof (induction n rule: dec_nat.induct)
  case (1 n)
  show ?case
  proof (cases "n < 10")
    case True
    then show ?thesis using digit_char_not_newline [of n] by (subst dec_nat.simps) auto
  next
    case False
    have "digit_char (n mod 10) \<noteq> CHR 0x0A" by (rule digit_char_not_newline) simp
    with False 1 show ?thesis by (subst dec_nat.simps) auto
  qed
qed

lemma fmt_6_2f_shape:
  assumes "0 \<le> x"
  shows "\<exists>pad whole d1 d2.
           fmt_6_2f x = replicate pad (CHR '' '') @ dec_nat whole @ ''.''
                          @ [digit_char d1, digit_char d2] \<and>
           d1 < 10 \<and> d2 < 10 \<and>
           int (100 * whole + 10 * d1 + d2) = roundeven (x * 100)"
proof -
  define h where "h = nat (roundeven (x * 100))"
  define whole where "whole = h div 100"
  define d1 where "d1 = h mod 100 div 10"
  define d2 where "d2 = h mod 100 mod 10"
  have "x * 100 - 1 / 2 \<le> of_int (roundeven (x * 100))" by (rule roundeven_between)
  with assms have "(of_int (- 1) :: rat) < of_int (roundeven (x * 100))" by simp
  then have "- 1 < roundeven (x * 100)" by (simp only: of_int_less_iff)
  then have h: "int h = roundeven (x * 100)" by (simp add: h_def)
  have "10 * d1 + d2 = h mod 100" unfolding d1_def d2_def by (rule mult_div_mod_eq)
  moreover have "100 * whole + h mod 100 = h" unfolding whole_def by (rule mult_div_mod_eq)
  ultimately have "100 * whole + 10 * d1 + d2 = h" by linarith
  with h have v: "int (100 * whole + 10 * d1 + d2) = roundeven (x * 100)" by simp
  have d: "d1 < 10" "d2 < 10" by (simp_all add: d1_def d2_def)
  have f: "fmt_6_2f x =
      replicate (6 - length (dec_nat whole @ ''.'' @ [digit_char d1, digit_char d2])) (CHR '' '')
        @ dec_nat whole @ ''.'' @ [digit_char d1, digit_char d2]"
    by (simp add: fmt_6_2f_def h_def whole_def d1_def d2_def Let_def)
  show ?thesis
    apply (rule exI [of _ "6 - length (dec_nat whole @ ''.'' @ [digit_char d1, digit_char d2])"])
    apply (rule exI [of _ whole])
    apply (rule exI [of _ d1])
    apply (rule exI [of _ d2])
    apply (intro conjI)
       apply (rule f)
      apply (rule d(1))
     apply (rule d(2))
    apply (rule v)
    done
qed

lemma fmt_6_2f_no_newline:
  assumes "0 \<le> x"
  shows "CHR 0x0A \<notin> set (fmt_6_2f x)"
proof -
  from fmt_6_2f_shape [OF assms] obtain pad whole d1 d2 where
    f: "fmt_6_2f x = replicate pad (CHR '' '') @ dec_nat whole @ ''.''
                          @ [digit_char d1, digit_char d2]" and d: "d1 < 10" "d2 < 10"
    by blast
  show ?thesis
    unfolding f using dec_nat_no_newline [of whole] digit_char_not_newline [OF d(1)]
      digit_char_not_newline [OF d(2)]
    by auto
qed

lemma ilog2_unique:
  assumes "0 < x" and "2 powi n \<le> x" and "x < 2 powi (n + 1)"
  shows "ilog2 x = n"
proof -
  have "ilog2 x < n + 1" using assms(1,3) by (rule ilog2_less)
  moreover have "n \<le> ilog2 x" using assms(1,2) by (rule ilog2_ge)
  ultimately show ?thesis by simp
qed

lemma roundeven_of_int: "roundeven (of_int n) = n"
  by (simp add: roundeven_def)

text \<open>An integer below 2^53 is a float64: the conversion is exact.\<close>

lemma float64_round_of_int:
  assumes "0 \<le> n" and "n < 2 ^ 53"
  shows "float64_round (of_int n) = of_int n"
proof (cases "n = 0")
  case True
  then show ?thesis by (simp add: float64_round_def)
next
  case False
  with assms(1) have n: "(0::rat) < of_int n" by simp
  let ?e = "ilog2 (of_int n)"
  let ?u = "(2::rat) powi (?e - 52)"
  have "(of_int n :: rat) < of_int (2 ^ 53)" using assms(2) by (simp only: of_int_less_iff)
  then have "(of_int n :: rat) < 2 powi 53" by simp
  then have "?e < 53" by (rule ilog2_less [OF n])
  then have cu: "of_int (2 ^ nat (52 - ?e)) * ?u = 1" by (intro powi_nat_inverse) simp
  have u: "0 < ?u" by simp
  have "of_int n / ?u = of_int n * (of_int (2 ^ nat (52 - ?e)) * ?u) / ?u" by (simp only: cu mult_1_right)
  also have "\<dots> = of_int (n * 2 ^ nat (52 - ?e))" using u by simp
  finally have q: "of_int n / ?u = of_int (n * 2 ^ nat (52 - ?e))" .
  have "float64_round (of_int n) = of_int (n * 2 ^ nat (52 - ?e)) * ?u"
    unfolding float64_round_pos [OF n] q roundeven_of_int ..
  also have "\<dots> = of_int n * (of_int (2 ^ nat (52 - ?e)) * ?u)" by simp
  finally show ?thesis by (simp only: cu mult_1_right)
qed

lemma bar_20: "map (\<lambda>i. if i < (20::nat) then CHR ''='' else CHR '' '') [0..<20] =
    ''====================''"
  by code_simp

lemma dec_nat_100: "dec_nat 100 = ''100''"
  by code_simp

lemma dec_nat_33: "dec_nat 33 = ''33''"
  by code_simp

lemma digit_char_0: "digit_char 0 = CHR ''0''"
  by code_simp

lemma digit_char_3: "digit_char 3 = CHR ''3''"
  by code_simp

text \<open>When the counter has reached the total, the bar is full and the line shows 100.00.\<close>

lemma render_complete:
  assumes "0 < tot" and "tot * 100 < 2 ^ 53"
  shows "render tot tot = Some (carriage_return # ''Progress: [====================] 100.00%'')"
proof -
  have t: "float64_of_int tot = of_int tot"
    unfolding float64_of_int_def using assms by (intro float64_round_of_int) simp_all
  have "float64_round (of_int tot * 100) = float64_round (of_int (tot * 100))" by simp
  also have "\<dots> = of_int (tot * 100)" using assms by (intro float64_round_of_int) simp_all
  finally have t100: "float64_round (of_int tot * 100) = of_int tot * 100" by simp
  have "float64_round (of_int 100) = of_int 100" by (rule float64_round_of_int) simp_all
  then have r100: "float64_round 100 = 100" by simp
  have "float64_round (of_int 20) = of_int 20" by (rule float64_round_of_int) simp_all
  then have r20: "float64_round 20 = 20" by simp
  have p: "percent_of tot tot = 100"
    using assms(1) by (simp add: percent_of_def t t100 r100)
  have f: "fmt_6_2f 100 = ''100.00''"
    by (simp add: fmt_6_2f_def Let_def roundeven_def dec_nat_100 digit_char_0)
  show ?thesis
    using assms(1)
    by (simp add: render_def Let_def p progressBarWidth_def r20 int_of_float64_def f bar_20)
qed

lemma roundeven_unique:
  assumes "\<bar>of_int m - q\<bar> < 1 / 2"
  shows "roundeven q = m"
proof -
  have "\<bar>of_int (roundeven q) - of_int m :: rat\<bar> < 1"
    using roundeven_near [of q] assms by linarith
  then have "\<bar>(of_int (roundeven q - m) :: rat)\<bar> < 1" by simp
  then have "(of_int \<bar>roundeven q - m\<bar> :: rat) < of_int 1" by simp
  then have "\<bar>roundeven q - m\<bar> < 1" by (simp only: of_int_less_iff)
  then show ?thesis by simp
qed

lemma float64_round_eval:
  assumes "0 < x" and "2 powi n \<le> x" and "x < 2 powi (n + 1)"
    and "\<bar>of_int m - x / 2 powi (n - 52)\<bar> < 1 / 2"
  shows "float64_round x = of_int m * 2 powi (n - 52)"
proof -
  have n: "ilog2 x = n" using assms(1-3) by (rule ilog2_unique)
  have "roundeven (x / 2 powi (n - 52)) = m" using assms(4) by (rule roundeven_unique)
  then show ?thesis unfolding float64_round_pos [OF assms(1)] n by simp
qed

text \<open>One third: the quotient 100 / 3 is not a float64, and the division rounds.\<close>

lemma percent_third: "percent_of 1 3 = 4691249611844267 / 140737488355328"
proof -
  have one: "float64_round (of_int 1) = of_int 1" by (rule float64_round_of_int) simp_all
  have three: "float64_round (of_int 3) = of_int 3" by (rule float64_round_of_int) simp_all
  have hundred: "float64_round (of_int 100) = of_int 100" by (rule float64_round_of_int) simp_all
  have "float64_round (100 / 3) = of_int 4691249611844267 * 2 powi (5 - 52)"
    by (rule float64_round_eval) simp_all
  then have "float64_round (100 / 3) = 4691249611844267 / 140737488355328" by simp
  with one three hundred show ?thesis
    by (simp add: percent_of_def float64_of_int_def)
qed

lemma bar_6: "map (\<lambda>i. if i < (6::nat) then CHR ''='' else CHR '' '') [0..<20] =
    ''======              ''"
  by code_simp

lemma render_third:
  "render 1 3 = Some (carriage_return # ''Progress: [======              ]  33.33%'')"
proof -
  let ?P = "4691249611844267 / 140737488355328 :: rat"
  have "float64_round (4691249611844267 / 703687441776640) =
          of_int 7505999378950827 * 2 powi (2 - 52)"
    by (rule float64_round_eval) simp_all
  also have "\<dots> = 7505999378950827 / 1125899906842624" by simp
  finally have q: "float64_round (4691249611844267 / 703687441776640) =
                     7505999378950827 / 1125899906842624" .
  have fl: "\<lfloor>7505999378950827 / 1125899906842624 :: rat\<rfloor> = 6"
    by (rule floor_unique) simp_all
  have c: "int_of_float64 (float64_round (4691249611844267 / 703687441776640)) = Some 6"
    unfolding q by (simp add: int_of_float64_def fl)
  have "roundeven (?P * 100) = 3333" by (rule roundeven_unique) simp
  then have f: "fmt_6_2f ?P = '' 33.33''"
    by (simp add: fmt_6_2f_def Let_def dec_nat_33 digit_char_3)
  show ?thesis
    by (simp add: render_def Let_def percent_third progressBarWidth_def c f bar_6)
qed

lemma Read_bytes_renders:
  assumes "progress_inv p"
    and "Render rd tot \<in> set (snd (fst (Read bytes_Read p b clock)))"
  shows "0 < rd \<and> rd \<le> tot \<and> tot = pr_total p"
proof (cases "length (br_s (pr_r p)) \<le> br_i (pr_r p)")
  case True
  with assms show ?thesis
    by (simp add: Read_def bytes_Read_def progress_inv_def)
next
  case False
  define n where "n = min (length b) (length (br_s (pr_r p)) - br_i (pr_r p))"
  have w: "wrap64 (pr_read p + int n) = pr_read p + int n"
    using assms(1) False by (intro wrap64_id) (auto simp: progress_inv_def n_def)
  from False assms w show ?thesis
    by (auto simp: Read_def bytes_Read_def progress_inv_def Let_def n_def min_def
        split: if_splits intro!: add_nonneg_pos)
qed

text \<open>
  In an upload every call of \<open>render\<close> sees a counter that is positive and at most the
  total, the length of the request body.
\<close>

lemma upload_renders_in_range:
  assumes "progress_inv p"
    and "Render rd tot \<in> set (snd (fst (Read_calls bytes_Read p calls)))"
  shows "0 < rd \<and> rd \<le> tot \<and> tot = pr_total p"
  using assms
proof (induction calls arbitrary: p)
  case Nil
  then show ?case by simp
next
  case (Cons c calls)
  obtain b clock where c: "c = (b, clock)" by (cases c)
  let ?p1 = "snd (Read bytes_Read p b clock)"
  from Read_bytes_step [OF Cons.prems(1), of b clock]
  have p1: "progress_inv ?p1" "br_s (pr_r ?p1) = br_s (pr_r p)" by simp_all
  then have tot: "pr_total ?p1 = pr_total p"
    using Cons.prems(1) by (simp add: progress_inv_def)
  from Cons.prems(2) have
    "Render rd tot \<in> set (snd (fst (Read bytes_Read p b clock))) \<or>
     Render rd tot \<in> set (snd (fst (Read_calls bytes_Read ?p1 calls)))"
    unfolding c by (simp add: Read_calls_Cons del: Read_calls.simps)
  then show ?case
  proof
    assume "Render rd tot \<in> set (snd (fst (Read bytes_Read p b clock)))"
    with Cons.prems(1) show ?thesis by (rule Read_bytes_renders)
  next
    assume "Render rd tot \<in> set (snd (fst (Read_calls bytes_Read ?p1 calls)))"
    with Cons.IH [OF p1(1)] tot show ?thesis by simp
  qed
qed

text \<open>
  Claim C8: for counters \<open>0 \<le> read\<close> and \<open>0 < total\<close> whose quotient is within the range
  of \<open>int\<close> (\<open>read \<le> 2^53 * total\<close> is enough; in an upload \<open>read \<le> total\<close>), the line
  of \<open>render\<close> is a carriage return, \<open>Progress: [\<close>, a bar of exactly 20 cells of which
  the first \<open>filled\<close> are \<open>=\<close> and the others blank, \<open>] \<close>, the percentage and \<open>%\<close>.
  \<open>filled\<close> is the integer part of \<open>percent / (100 / 20)\<close>, capped at 20, for the
  \<open>float64\<close> \<open>percent\<close> that the line prints; the percentage is printed with a point and
  two decimals, its value rounded to hundredths; and the line has no line feed in it.
\<close>

theorem render_bar:
  assumes "0 \<le> rd" and "0 < tot" and "rd \<le> 2 ^ 53 * tot"
  shows "\<exists>filled pad whole d1 d2.
           render rd tot =
             Some (carriage_return # ''Progress: ['' @ replicate filled (CHR ''='')
                     @ replicate (20 - filled) (CHR '' '') @ ''] ''
                     @ fmt_6_2f (percent_of rd tot) @ ''%'') \<and>
           int filled = min 20 \<lfloor>percent_of rd tot / (100 / 20)\<rfloor> \<and>
           fmt_6_2f (percent_of rd tot) =
             replicate pad (CHR '' '') @ dec_nat whole @ ''.'' @ [digit_char d1, digit_char d2] \<and>
           d1 < 10 \<and> d2 < 10 \<and>
           int (100 * whole + 10 * d1 + d2) = roundeven (percent_of rd tot * 100) \<and>
           CHR 0x0A \<notin> set (the (render rd tot))"
proof -
  let ?P = "percent_of rd tot"
  let ?q = "float64_round (?P / 5)"
  from percent_of_eq [OF assms(1,2)] obtain z where
    z: "0 \<le> z" "?P = float64_round z" "z * of_int tot \<le> 800 * of_int rd"
    by blast
  have t: "(0::rat) < of_int tot" using assms(2) by simp
  have P0: "0 \<le> ?P" unfolding z(2) using z(1) by (rule float64_round_nonneg)
  have q0: "0 \<le> ?q" using P0 by (intro float64_round_nonneg) simp
  have "(of_int rd :: rat) \<le> of_int (2 ^ 53 * tot)" using assms(3) by (simp only: of_int_le_iff)
  then have rd: "(of_int rd :: rat) \<le> 2 ^ 53 * of_int tot" by simp
  have "z * of_int tot \<le> 800 * 2 ^ 53 * of_int tot" using z(3) rd by linarith
  then have zb: "z \<le> 800 * 2 ^ 53" using t by simp
  have "?P \<le> 2 * z" unfolding z(2) using z(1) by (rule float64_round_le_double)
  moreover have "?q \<le> 2 * (?P / 5)" using P0 by (intro float64_round_le_double) simp
  ultimately have "?q \<le> 640 * 2 ^ 53" using zb by linarith
  then have "?q < 2 ^ 63" by simp
  then have "?q < of_int (2 ^ 63)" by simp
  then have qhi: "\<lfloor>?q\<rfloor> < 2 ^ 63" by (simp only: floor_less_iff)
  have qlo: "0 \<le> \<lfloor>?q\<rfloor>" using q0 by simp
  have conv: "int_of_float64 ?q = Some \<lfloor>?q\<rfloor>"
    using q0 qlo qhi by (simp add: int_of_float64_def)
  define filled where "filled = nat (min 20 \<lfloor>?q\<rfloor>)"
  have filled20: "filled \<le> 20" by (simp add: filled_def)
  have cap: "(if progressBarWidth < \<lfloor>?q\<rfloor> then progressBarWidth else \<lfloor>?q\<rfloor>) = int filled"
  proof (cases "20 < \<lfloor>?q\<rfloor>")
    case True
    then show ?thesis by (simp add: filled_def progressBarWidth_def)
  next
    case False
    with qlo show ?thesis by (simp add: filled_def progressBarWidth_def)
  qed
  have bar: "map (\<lambda>i. if int i < int filled then CHR ''='' else CHR '' '')
               [0..<nat progressBarWidth] =
               replicate filled (CHR ''='') @ replicate (20 - filled) (CHR '' '')"
    unfolding bar_cells using filled20 by (simp add: progressBarWidth_def min_def)
  have bar': "map (\<lambda>i. if i < filled then CHR ''='' else CHR '' '')
               [0..<nat progressBarWidth] =
               replicate filled (CHR ''='') @ replicate (20 - filled) (CHR '' '')"
    using bar by simp
  have five: "(of_int (100 div progressBarWidth) :: rat) = 5"
    by (simp add: progressBarWidth_def)
  have r: "render rd tot =
             Some (carriage_return # ''Progress: ['' @ replicate filled (CHR ''='')
                     @ replicate (20 - filled) (CHR '' '') @ ''] '' @ fmt_6_2f ?P @ ''%'')"
    using assms(1,2) by (simp add: render_def Let_def five conv cap bar')
  have "min 20 \<lfloor>?q\<rfloor> = min 20 \<lfloor>?P / 5\<rfloor>"
    unfolding z(2) by (rule floor_fifth_capped [OF z(1)])
  moreover have "int filled = min 20 \<lfloor>?q\<rfloor>" using qlo by (simp add: filled_def)
  ultimately have fl: "int filled = min 20 \<lfloor>?P / (100 / 20)\<rfloor>" by simp
  from fmt_6_2f_shape [OF P0] obtain pad whole d1 d2 where
    f: "fmt_6_2f ?P = replicate pad (CHR '' '') @ dec_nat whole @ ''.''
                          @ [digit_char d1, digit_char d2]"
      "d1 < 10" "d2 < 10" "int (100 * whole + 10 * d1 + d2) = roundeven (?P * 100)"
    by blast
  have nl: "CHR 0x0A \<notin> set (the (render rd tot))"
    unfolding r using fmt_6_2f_no_newline [OF P0] by (simp add: carriage_return_def)
  show ?thesis
    apply (rule exI [of _ filled])
    apply (rule exI [of _ pad])
    apply (rule exI [of _ whole])
    apply (rule exI [of _ d1])
    apply (rule exI [of _ d2])
    apply (intro conjI)
          apply (rule r)
         apply (rule fl)
        apply (rule f(1))
       apply (rule f(2))
      apply (rule f(3))
     apply (rule f(4))
    apply (rule nl)
    done
qed

theorem render_bar_witness:
  "(0::int) \<le> 1 \<and> (0::int) < 3 \<and> (1::int) \<le> 2 ^ 53 * 3 \<and>
   render 1 3 = Some (carriage_return # ''Progress: [======              ]  33.33%'') \<and>
   (\<exists>filled pad whole d1 d2.
      render 1 3 =
        Some (carriage_return # ''Progress: ['' @ replicate filled (CHR ''='')
                @ replicate (20 - filled) (CHR '' '') @ ''] ''
                @ fmt_6_2f (percent_of 1 3) @ ''%'') \<and>
      int filled = min 20 \<lfloor>percent_of 1 3 / (100 / 20)\<rfloor> \<and>
      fmt_6_2f (percent_of 1 3) =
        replicate pad (CHR '' '') @ dec_nat whole @ ''.'' @ [digit_char d1, digit_char d2] \<and>
      d1 < 10 \<and> d2 < 10 \<and>
      int (100 * whole + 10 * d1 + d2) = roundeven (percent_of 1 3 * 100) \<and>
      CHR 0x0A \<notin> set (the (render 1 3)))"
proof -
  have h: "(0::int) \<le> 1" "(0::int) < 3" "(1::int) \<le> 2 ^ 53 * 3" by simp_all
  from render_bar [OF h] render_third h show ?thesis by (intro conjI)
qed

end
